theory Spec2Isabelle
  imports Complex_Main "HOL-Library.AList" "HOL-Library.Multiset"
    "HOL-Library.Char_ord" "HOL-Library.List_Lexorder" "HOL-Library.Product_Lexorder"
begin

section \<open>Python strings and slices\<close>

text \<open>
  A Python \<open>str\<close> is modelled as a \<open>string\<close> (a list of 8-bit \<open>char\<close>): the model covers
  the lines whose code points are below 256. Python integers are \<open>int\<close>.
\<close>

definition py_len :: "'a list \<Rightarrow> int" where
  "py_len xs = int (length xs)"

text \<open>\<open>text[:n]\<close>: a negative bound counts from the end, and a bound out of range is clipped.\<close>

definition slice_to :: "'a list \<Rightarrow> int \<Rightarrow> 'a list" where
  "slice_to xs n = (if 0 \<le> n then take (nat n) xs else take (length xs - nat (- n)) xs)"

text \<open>\<open>text[n:]\<close>, with the same treatment of a negative bound.\<close>

definition slice_from :: "'a list \<Rightarrow> int \<Rightarrow> 'a list" where
  "slice_from xs n = (if 0 \<le> n then drop (nat n) xs else drop (length xs - nat (- n)) xs)"

section \<open>ellipsize_middle\<close>

text \<open>Python's \<open>//\<close> on integers is floor division, which is \<open>div\<close> on \<open>int\<close>.\<close>

definition ellipsize_middle :: "string \<Rightarrow> int \<Rightarrow> string \<Rightarrow> string" where
  "ellipsize_middle text max_len ellipsis =
     (if max_len \<le> 0 then ''''
      else if py_len text \<le> max_len then text
      else if max_len \<le> py_len ellipsis then slice_to text max_len
      else
        (let keep = max_len - py_len ellipsis;
             left = (keep + 1) div 2;
             right = keep - left
         in slice_to text left @ ellipsis @ (if right > 0 then slice_from text (- right) else '''')))"

text \<open>The call with the default value of the parameter \<open>ellipsis\<close>.\<close>

definition ellipsize_middle_default :: "string \<Rightarrow> int \<Rightarrow> string" where
  "ellipsize_middle_default text max_len = ellipsize_middle text max_len ''...''"

text \<open>
  The name column of \<open>main\<close>: \<open>w = max(10, args.width)\<close>, then
  \<open>name = ellipsize_middle(method, w)\<close>.
\<close>

definition column_width :: "int \<Rightarrow> int" where
  "column_width width = max 10 width"

definition render_name :: "string \<Rightarrow> int \<Rightarrow> string" where
  "render_name method width = ellipsize_middle_default method (column_width width)"

section \<open>Line Parser\<close>

subsection \<open>Character classes of the pattern\<close>

text \<open>
  On a \<open>str\<close> pattern \<open>\s\<close> is Unicode whitespace (the characters of \<open>str.isspace\<close>) and
  \<open>\d\<close> is a Unicode decimal digit. Below code point 256 these are the twelve characters
  listed here and the ten ASCII digits.
\<close>

definition is_space :: "char \<Rightarrow> bool" where
  "is_space c = (c \<in> set [CHR 0x09, CHR 0x0A, CHR 0x0B, CHR 0x0C, CHR 0x0D, CHR 0x1C,
                           CHR 0x1D, CHR 0x1E, CHR 0x1F, CHR 0x20, CHR 0x85, CHR 0xA0])"

definition is_digit :: "char \<Rightarrow> bool" where
  "is_digit c = (c \<in> set ''0123456789'')"

definition is_hex :: "char \<Rightarrow> bool" where
  "is_hex c = (c \<in> set ''0123456789abcdefABCDEF'')"

definition is_arrow :: "char \<Rightarrow> bool" where
  "is_arrow c = (c \<in> set ''<>'')"

datatype cls =
    Digit       \<comment> \<open>\<open>\d\<close>\<close>
  | Sep         \<comment> \<open>\<open>[:.]\<close>\<close>
  | Space       \<comment> \<open>\<open>\s\<close>\<close>
  | NonSpace    \<comment> \<open>\<open>\S\<close>\<close>
  | Hex         \<comment> \<open>\<open>[0-9a-fA-F]\<close>\<close>
  | AnyChar     \<comment> \<open>\<open>.\<close> (without DOTALL: anything but a newline)\<close>
  | Arrow       \<comment> \<open>\<open>[<>]\<close>\<close>
  | Lit char    \<comment> \<open>a literal character\<close>

fun cls_ok :: "cls \<Rightarrow> char \<Rightarrow> bool" where
  "cls_ok Digit c = is_digit c"
| "cls_ok Sep c = (c = CHR '':'' \<or> c = CHR ''.'')"
| "cls_ok Space c = is_space c"
| "cls_ok NonSpace c = (\<not> is_space c)"
| "cls_ok Hex c = is_hex c"
| "cls_ok AnyChar c = (c \<noteq> CHR 0x0A)"
| "cls_ok Arrow c = is_arrow c"
| "cls_ok (Lit d) c = (c = d)"

subsection \<open>The backtracking matcher\<close>

text \<open>
  The pattern is a sequence of items, each a character class with a quantifier: exactly
  one, greedy \<open>+\<close>, or lazy \<open>*?\<close>. \<open>GreedyStar\<close> is the rest of a greedy \<open>+\<close> after its
  first character. The matcher is the backtracking search of the \<open>re\<close> module: a greedy
  item first tries to take one more character and gives it back when the rest of the
  pattern fails, a lazy item first tries the rest of the pattern and takes one more
  character when that fails. The result is the first match in that order, as the list of
  the texts that the items consumed, or \<open>None\<close>.
\<close>

datatype item = One cls | Plus cls | GreedyStar cls | LazyStar cls

fun push :: "char \<Rightarrow> string list \<Rightarrow> string list" where
  "push x [] = []"
| "push x (t # ts) = (x # t) # ts"

fun bt :: "item list \<Rightarrow> string \<Rightarrow> string list option" where
  "bt [] s = Some []"
| "bt (One c # rest) [] = None"
| "bt (One c # rest) (x # xs) =
     (if cls_ok c x then map_option (Cons [x]) (bt rest xs) else None)"
| "bt (Plus c # rest) [] = None"
| "bt (Plus c # rest) (x # xs) =
     (if cls_ok c x then map_option (push x) (bt (GreedyStar c # rest) xs) else None)"
| "bt (GreedyStar c # rest) [] = map_option (Cons []) (bt rest [])"
| "bt (GreedyStar c # rest) (x # xs) =
     (if cls_ok c x
      then (case bt (GreedyStar c # rest) xs of
              Some r \<Rightarrow> Some (push x r)
            | None \<Rightarrow> map_option (Cons []) (bt rest (x # xs)))
      else map_option (Cons []) (bt rest (x # xs)))"
| "bt (LazyStar c # rest) s =
     (case bt rest s of
        Some r \<Rightarrow> Some ([] # r)
      | None \<Rightarrow>
          (case s of
             [] \<Rightarrow> None
           | x # xs \<Rightarrow>
               if cls_ok c x then map_option (push x) (bt (LazyStar c # rest) xs) else None))"

subsection \<open>LINE_RE\<close>

text \<open>
  The pattern, item by item (\<open>re.VERBOSE\<close> drops its blanks and comments; \<open>\d{2}\<close> is two
  items). Items 0 to 11 are the group \<open>ts\<close>, 13 to 15 the group \<open>tid\<close>, 18 the group
  \<open>arrow\<close> and 20 the group \<open>method\<close>.
\<close>

definition LINE_RE :: "item list" where
  "LINE_RE =
     [One Digit, One Digit, One Sep, One Digit, One Digit, One Sep,
      One Digit, One Digit, One Sep, One Digit, One Digit, One Digit,
      Plus Space, One (Lit (CHR ''0'')), One (Lit (CHR ''x'')), Plus Hex,
      Plus Space, LazyStar AnyChar,
      One Arrow,
      Plus Space, Plus NonSpace]"

record event =
  ev_ts :: string
  ev_tid :: string
  ev_arrow :: string
  ev_method :: string

definition groups :: "string list \<Rightarrow> event" where
  "groups r = \<lparr>ev_ts = concat (take 12 r), ev_tid = concat (take 3 (drop 13 r)),
              ev_arrow = r ! 18, ev_method = r ! 20\<rparr>"

text \<open>
  \<open>LINE_RE.search(line)\<close>: the pattern starts with \<open>^\<close> and is compiled without
  \<open>re.MULTILINE\<close>, so of the start positions that \<open>search\<close> tries only position 0 can
  match.
\<close>

definition LINE_RE_search :: "string \<Rightarrow> event option" where
  "LINE_RE_search line = map_option groups (bt LINE_RE line)"

text \<open>\<open>raw.rstrip('\n')\<close>\<close>

definition rstrip_nl :: "string \<Rightarrow> string" where
  "rstrip_nl raw = rev (dropWhile (\<lambda>c. c = CHR 0x0A) (rev raw))"

text \<open>
  One turn of the loop of \<open>iter_lines\<close>: \<open>None\<close> when the line is skipped (\<open>continue\<close>),
  the groups when it is yielded. \<open>line.strip()\<close> is empty exactly when every character of
  the line is whitespace. The line number that is yielded too is never used by the caller.
\<close>

definition iter_line :: "string \<Rightarrow> event option" where
  "iter_line raw =
     (let line = rstrip_nl raw
      in if list_all is_space line then None else LINE_RE_search line)"

subsection \<open>The grammar as a predicate\<close>

text \<open>
  What it means for a text to be matched by an item, and for a list of texts (one per
  item) to be a match of a pattern at the start of a line. Unlike \<open>bt\<close>, this says
  nothing about which of several matches is found.
\<close>

fun item_ok :: "item \<Rightarrow> string \<Rightarrow> bool" where
  "item_ok (One c) t = (case t of [x] \<Rightarrow> cls_ok c x | _ \<Rightarrow> False)"
| "item_ok (Plus c) t = (t \<noteq> [] \<and> list_all (cls_ok c) t)"
| "item_ok (GreedyStar c) t = list_all (cls_ok c) t"
| "item_ok (LazyStar c) t = list_all (cls_ok c) t"

definition matches :: "item list \<Rightarrow> string list \<Rightarrow> string \<Rightarrow> bool" where
  "matches items r s = (list_all2 item_ok items r \<and> take (length (concat r)) s = concat r)"

section \<open>Clock Normalizer\<close>

text \<open>\<open>ts.replace('.', ":")\<close>\<close>

definition replace_dot :: "string \<Rightarrow> string" where
  "replace_dot ts = map (\<lambda>c. if c = CHR ''.'' then CHR '':'' else c) ts"

text \<open>\<open>str.split(sep)\<close> with a one-character separator.\<close>

fun split_on :: "char \<Rightarrow> string \<Rightarrow> string list" where
  "split_on sep [] = [[]]"
| "split_on sep (x # xs) =
     (if x = sep then [] # split_on sep xs
      else (case split_on sep xs of [] \<Rightarrow> [[x]] | p # ps \<Rightarrow> (x # p) # ps))"

definition digit_val :: "char \<Rightarrow> int" where
  "digit_val c = int (of_char c) - 48"

text \<open>
  \<open>int(s)\<close> on a non-empty string of ASCII digits; \<open>None\<close> stands for the ValueError on
  anything else. (Python also accepts a sign, surrounding blanks and underscores: the
  fields of a matched \<open>ts\<close> have none, see \<open>parse_ts_ms_matched\<close>.)
\<close>

definition py_int :: "string \<Rightarrow> int option" where
  "py_int s =
     (if s \<noteq> [] \<and> list_all is_digit s
      then Some (foldl (\<lambda>a c. 10 * a + digit_val c) 0 s) else None)"

text \<open>
  \<open>h, m, s, ms = map(int, ts.split(':'))\<close> raises unless there are exactly four fields
  and each is an integer.
\<close>

definition parse_ts_ms :: "string \<Rightarrow> int option" where
  "parse_ts_ms ts =
     (case map py_int (split_on (CHR '':'') (replace_dot ts)) of
        [Some h, Some m, Some s, Some ms] \<Rightarrow> Some (((h * 60 + m) * 60 + s) * 1000 + ms)
      | _ \<Rightarrow> None)"

definition day_ms :: int where
  "day_ms = 24 * 60 * 60 * 1000"

text \<open>
  Lines 74 to 78 of the loop body: from \<open>last_abs_ms\<close>, \<open>day_offset\<close> and the time of day
  to the absolute time and the new \<open>day_offset\<close>.
\<close>

definition clock_step :: "int option \<Rightarrow> int \<Rightarrow> int \<Rightarrow> int \<times> int" where
  "clock_step last_abs off ms =
     (let abs_ms = ms + off
      in case last_abs of
           None \<Rightarrow> (abs_ms, off)
         | Some l \<Rightarrow> if abs_ms < l then (ms + (off + day_ms), off + day_ms) else (abs_ms, off))"

text \<open>
  A raw line whose time of day, when the line is an event, is below one day: what
  \<open>H \<le> 23\<close>, \<open>M, S \<le> 59\<close> give.
\<close>

definition in_day :: "string \<Rightarrow> bool" where
  "in_day raw =
     (case iter_line raw of
        None \<Rightarrow> True
      | Some ev \<Rightarrow> (case parse_ts_ms (ev_ts ev) of None \<Rightarrow> True | Some ms \<Rightarrow> ms < day_ms))"

section \<open>Call-Stack Reconstructor and Aggregator\<close>

type_synonym frame = "string \<times> int"

record mstat =
  count_n :: int
  total_ms :: int

text \<open>
  The state of the loop of \<open>compute_stats\<close>. \<open>stacks\<close> is a \<open>defaultdict(list)\<close>: a map,
  read through \<open>stack_of\<close>. \<open>stats\<close> is a \<open>defaultdict\<close> whose items are read in insertion
  order at the end: an association list. A Python list used as a stack has its top at the
  end.
\<close>

record state =
  stacks :: "string \<rightharpoonup> frame list"
  stats :: "(string \<times> mstat) list"
  last_abs_ms :: "int option"
  day_offset :: int

definition init_state :: state where
  "init_state = \<lparr>stacks = Map.empty, stats = [], last_abs_ms = None, day_offset = 0\<rparr>"

definition stack_of :: "(string \<rightharpoonup> frame list) \<Rightarrow> string \<Rightarrow> frame list" where
  "stack_of m tid = (case m tid of None \<Rightarrow> [] | Some fs \<Rightarrow> fs)"

text \<open>The first loop of the exit branch (lines 91 to 96), with \<open>break\<close> as the return.\<close>

function pop_until :: "string \<Rightarrow> frame list \<Rightarrow> frame list
    \<Rightarrow> frame option \<times> frame list \<times> frame list" where
  "pop_until method stk temp =
     (if stk = [] then (None, stk, temp)
      else
        (let (mth, s_ms) = last stk; stk' = butlast stk
         in if mth = method then (Some (mth, s_ms), stk', temp)
            else pop_until method stk' (temp @ [(mth, s_ms)])))"
  by pat_completeness auto
termination
  by (relation "measure (\<lambda>(method, stk, temp). length stk)") auto

text \<open>The second loop (lines 98 and 99).\<close>

function put_back :: "frame list \<Rightarrow> frame list \<Rightarrow> frame list" where
  "put_back stk temp =
     (if temp = [] then stk else put_back (stk @ [last temp]) (butlast temp))"
  by pat_completeness auto
termination
  by (relation "measure (\<lambda>(stk, temp). length temp)") auto

text \<open>Lines 107 to 109: \<open>stats[method]\<close> creates the entry on first use.\<close>

definition stat_of :: "(string \<times> mstat) list \<Rightarrow> string \<Rightarrow> mstat" where
  "stat_of sts method =
     (case map_of sts method of None \<Rightarrow> \<lparr>count_n = 0, total_ms = 0\<rparr> | Some s \<Rightarrow> s)"

definition aggregate :: "(string \<times> mstat) list \<Rightarrow> string \<Rightarrow> int \<Rightarrow> (string \<times> mstat) list" where
  "aggregate sts method dur =
     (let s = stat_of sts method
      in AList.update method (s\<lparr>count_n := count_n s + 1, total_ms := total_ms s + dur\<rparr>) sts)"

text \<open>
  Lines 80 to 109: the rest of the loop body, for an event with its absolute time. In
  the exit branch \<open>stacks[tid]\<close> creates an empty stack for a thread id not seen before.
\<close>

definition apply_event :: "state \<Rightarrow> string \<Rightarrow> string \<Rightarrow> string \<Rightarrow> int \<Rightarrow> state" where
  "apply_event st tid arrow method abs_ms =
     (if arrow = ''>''
      then st\<lparr>stacks := (stacks st)(tid \<mapsto> stack_of (stacks st) tid @ [(method, abs_ms)])\<rparr>
      else if stack_of (stacks st) tid = []
      then st\<lparr>stacks := (stacks st)(tid \<mapsto> [])\<rparr>
      else
        (let (found, stk, temp) = pop_until method (stack_of (stacks st) tid) [];
             st' = st\<lparr>stacks := (stacks st)(tid \<mapsto> put_back stk temp)\<rparr>
         in case found of
              None \<Rightarrow> st'
            | Some (start_method, start_ms) \<Rightarrow>
                (let dur = abs_ms - start_ms
                 in if dur \<ge> 0 then st'\<lparr>stats := aggregate (stats st') method dur\<rparr>
                    else st')))"

text \<open>
  The whole loop body for one raw line: \<open>None\<close> is the ValueError of \<open>parse_ts_ms\<close>,
  which ends the run.
\<close>

definition process_line :: "state \<Rightarrow> string \<Rightarrow> state option" where
  "process_line st raw =
     (case iter_line raw of
        None \<Rightarrow> Some st
      | Some ev \<Rightarrow>
          (case parse_ts_ms (ev_ts ev) of
             None \<Rightarrow> None
           | Some ms \<Rightarrow>
               (let (abs_ms, off) = clock_step (last_abs_ms st) (day_offset st) ms;
                    st' = st\<lparr>last_abs_ms := Some abs_ms, day_offset := off\<rparr>
                in Some (apply_event st' (ev_tid ev) (ev_arrow ev) (ev_method ev) abs_ms))))"

fun run :: "state \<Rightarrow> string list \<Rightarrow> state option" where
  "run st [] = Some st"
| "run st (raw # raws) =
     (case process_line st raw of None \<Rightarrow> None | Some st' \<Rightarrow> run st' raws)"

section \<open>Reporter\<close>

type_synonym row = "string \<times> int \<times> int \<times> rat"

text \<open>
  Lines 112 to 115. The average is Python's true division of two integers, a float; the
  model keeps the exact quotient.
\<close>

definition result_rows :: "(string \<times> mstat) list \<Rightarrow> row list" where
  "result_rows sts =
     map (\<lambda>(method, s).
            (method, count_n s, total_ms s,
             if count_n s \<noteq> 0 then of_int (total_ms s) / of_int (count_n s) else 0)) sts"

text \<open>
  \<open>result.sort(key=lambda x: (-x[3], -x[1], x[0]))\<close>: a stable sort on the key, and
  Python compares tuples lexicographically and strings by code point.
\<close>

definition default_key :: "row \<Rightarrow> rat \<times> int \<times> string" where
  "default_key = (\<lambda>(method, cnt, total, avg). (- avg, - cnt, method))"

definition sort_default :: "row list \<Rightarrow> row list" where
  "sort_default rows = sort_key default_key rows"

text \<open>
  The default ordering in the words of the specification: \<open>r1\<close> may stand before \<open>r2\<close>
  when its average is higher or, the averages equal, its count is higher or, the counts
  equal too, its method name is not after the other in the lexicographic order (of
  characters by code point).
\<close>

definition spec_default_order :: "row \<Rightarrow> row \<Rightarrow> bool" where
  "spec_default_order =
     (\<lambda>(m1, c1, t1, a1) (m2, c2, t2, a2).
        a1 > a2 \<or> (a1 = a2 \<and> (c1 > c2 \<or> (c1 = c2 \<and> m1 \<le> m2))))"

text \<open>\<open>compute_stats\<close> on the lines of the file, as the file iterator gives them.\<close>

definition compute_stats :: "string list \<Rightarrow> row list option" where
  "compute_stats raws =
     map_option (\<lambda>st. sort_default (result_rows (stats st))) (run init_state raws)"

subsection \<open>What a run computes on the way\<close>

text \<open>
  The interval that the exit branch of \<open>apply_event\<close> completes for an event: the
  method and \<open>dur\<close> of line 105, when a matching frame is found.
\<close>

definition completed_interval :: "state \<Rightarrow> string \<Rightarrow> string \<Rightarrow> string \<Rightarrow> int
    \<Rightarrow> (string \<times> int) option" where
  "completed_interval st tid arrow method abs_ms =
     (if arrow = ''>'' \<or> stack_of (stacks st) tid = [] then None
      else (case pop_until method (stack_of (stacks st) tid) [] of
              (None, stk, temp) \<Rightarrow> None
            | (Some (start_method, start_ms), stk, temp) \<Rightarrow> Some (method, abs_ms - start_ms)))"

text \<open>
  The absolute times and the completed intervals of a run, line by line, in the order
  of the input. Both follow \<open>process_line\<close> for the state.
\<close>

fun abs_times :: "state \<Rightarrow> string list \<Rightarrow> int list" where
  "abs_times st [] = []"
| "abs_times st (raw # raws) =
     (case process_line st raw of
        None \<Rightarrow> []
      | Some st' \<Rightarrow>
          (case iter_line raw of
             None \<Rightarrow> abs_times st' raws
           | Some ev \<Rightarrow>
               (case parse_ts_ms (ev_ts ev) of
                  None \<Rightarrow> []
                | Some ms \<Rightarrow>
                    fst (clock_step (last_abs_ms st) (day_offset st) ms) # abs_times st' raws)))"

fun intervals :: "state \<Rightarrow> string list \<Rightarrow> (string \<times> int) list" where
  "intervals st [] = []"
| "intervals st (raw # raws) =
     (case process_line st raw of
        None \<Rightarrow> []
      | Some st' \<Rightarrow>
          (case iter_line raw of
             None \<Rightarrow> intervals st' raws
           | Some ev \<Rightarrow>
               (case parse_ts_ms (ev_ts ev) of
                  None \<Rightarrow> []
                | Some ms \<Rightarrow>
                    (let (abs_ms, off) = clock_step (last_abs_ms st) (day_offset st) ms;
                         st1 = st\<lparr>last_abs_ms := Some abs_ms, day_offset := off\<rparr>
                     in (case completed_interval st1 (ev_tid ev) (ev_arrow ev) (ev_method ev)
                                abs_ms of
                           None \<Rightarrow> intervals st' raws
                         | Some iv \<Rightarrow> iv # intervals st' raws)))))"

section \<open>Properties of ellipsize_middle\<close>

lemma length_slice_to_pos: "0 \<le> n \<Longrightarrow> length (slice_to xs n) = min (nat n) (length xs)"
  by (simp add: slice_to_def min_def)

lemma length_slice_from_neg:
  "0 < r \<Longrightarrow> length (slice_from xs (- r)) = min (nat r) (length xs)"
  by (simp add: slice_from_def min_def)

text \<open>
  C9. For a column width \<open>w\<close> at or above the floor of 10 and a method name \<open>s\<close> longer than
  \<open>w\<close>, the rendered name is \<open>s[:left] + "..." + s[len(s)-right:]\<close> with
  \<open>left + right = w - 3\<close>; its length is exactly \<open>w\<close>; \<open>left\<close> exceeds \<open>right\<close> by one when
  \<open>w - 3\<close> is odd (and equals it otherwise). The width that \<open>main\<close> passes is
  \<open>max(10, args.width)\<close>, which is never below the floor.
\<close>

theorem ellipsize_middle_centered:
  assumes "10 \<le> w" and "w < py_len s"
  shows "\<exists>left right. left + right = nat w - 3
           \<and> ellipsize_middle_default s w = take left s @ ''...'' @ drop (length s - right) s
           \<and> length (ellipsize_middle_default s w) = nat w
           \<and> (odd (w - 3) \<longrightarrow> left = right + 1)
           \<and> (even (w - 3) \<longrightarrow> left = right)
           \<and> render_name s w = ellipsize_middle_default s w"
proof -
  define keep where "keep = w - 3"
  define left where "left = (keep + 1) div 2"
  define right where "right = keep - left"
  have k: "7 \<le> keep" using assms(1) by (simp add: keep_def)
  have l: "0 < left" "left \<le> keep" using k by (simp_all add: left_def)
  have r: "0 < right" using k by (simp add: right_def left_def)
  have len: "keep + 3 < int (length s)" using assms(2) by (simp add: keep_def py_len_def)
  have c: "\<not> w \<le> 0" "\<not> py_len s \<le> w" "\<not> w \<le> 3" and p: "py_len ''...'' = 3"
    using assms by (simp_all add: py_len_def)
  have "ellipsize_middle_default s w
          = slice_to s left @ ''...'' @ (if right > 0 then slice_from s (- right) else '''')"
    unfolding ellipsize_middle_default_def ellipsize_middle_def Let_def left_def right_def
      keep_def p
    by (simp only: c if_False)
  then have e: "ellipsize_middle_default s w
             = take (nat left) s @ ''...'' @ drop (length s - nat right) s"
    using l r by (simp add: slice_to_def slice_from_def)
  have s: "nat left + nat right = nat w - 3"
    using k l r by (simp add: right_def keep_def)
  have ll: "nat left \<le> length s" "nat right \<le> length s"
    using l r len unfolding right_def by linarith+
  have "nat left + 3 + nat right = nat w"
    using k l r unfolding right_def keep_def by linarith
  then have n: "length (take (nat left) s @ ''...'' @ drop (length s - nat right) s) = nat w"
    using ll by (simp add: min_def)
  have "odd (w - 3) \<longrightarrow> left = right + 1"
    unfolding left_def right_def keep_def by presburger
  then have o: "odd (w - 3) \<longrightarrow> nat left = nat right + 1"
    using r by auto
  have "even (w - 3) \<longrightarrow> left = right"
    unfolding left_def right_def keep_def by presburger
  then have v: "even (w - 3) \<longrightarrow> nat left = nat right"
    by auto
  have c: "render_name s w = ellipsize_middle_default s w"
    using assms(1) by (simp add: render_name_def column_width_def)
  show ?thesis
    using e s n o v c by (intro exI [of _ "nat left"] exI [of _ "nat right"]) simp
qed

theorem ellipsize_middle_centered_witness:
  "(10::int) \<le> 10 \<and> 10 < py_len ''abcdefghijklmnop''
   \<and> ellipsize_middle_default ''abcdefghijklmnop'' 10 = ''abcd...nop''
   \<and> (\<exists>left right. left + right = nat 10 - 3
        \<and> ellipsize_middle_default ''abcdefghijklmnop'' 10
            = take left ''abcdefghijklmnop'' @ ''...''
              @ drop (length ''abcdefghijklmnop'' - right) ''abcdefghijklmnop''
        \<and> length (ellipsize_middle_default ''abcdefghijklmnop'' 10) = nat 10
        \<and> (odd ((10::int) - 3) \<longrightarrow> left = right + 1)
        \<and> (even ((10::int) - 3) \<longrightarrow> left = right)
        \<and> render_name ''abcdefghijklmnop'' 10 = ellipsize_middle_default ''abcdefghijklmnop'' 10)"
proof -
  have h1: "(10::int) \<le> 10" by simp
  have h2: "10 < py_len ''abcdefghijklmnop''" by (simp add: py_len_def)
  have v: "ellipsize_middle_default ''abcdefghijklmnop'' 10 = ''abcd...nop''"
    by (simp add: ellipsize_middle_default_def ellipsize_middle_def py_len_def Let_def
        slice_to_def slice_from_def)
  show ?thesis
    using h1 h2 v ellipsize_middle_centered [OF h1 h2] by blast
qed

text \<open>
  C10. \<open>ellipsize_middle\<close> (with the default ellipsis) is a total function whose result
  never overflows the width: its length is \<open>min(len(text), max(0, max_len))\<close>. A width
  \<open>max_len \<le> 0\<close> gives the empty string, a text that fits is returned unchanged, and a
  longer text with \<open>0 < max_len \<le> 3\<close> is cut to \<open>text[:max_len]\<close>, with no ellipsis.
\<close>

theorem ellipsize_middle_total:
  "py_len (ellipsize_middle_default text max_len) = min (py_len text) (max 0 max_len)
   \<and> (max_len \<le> 0 \<longrightarrow> ellipsize_middle_default text max_len = '''')
   \<and> (py_len text \<le> max_len \<longrightarrow> ellipsize_middle_default text max_len = text)
   \<and> (0 < max_len \<and> max_len \<le> 3 \<and> max_len < py_len text
        \<longrightarrow> ellipsize_middle_default text max_len = take (nat max_len) text)"
proof -
  have a: "max_len \<le> 0 \<longrightarrow> ellipsize_middle_default text max_len = ''''"
    by (simp add: ellipsize_middle_default_def ellipsize_middle_def)
  have "max_len \<le> 0 \<Longrightarrow> py_len text \<le> max_len \<Longrightarrow> length text = 0"
    unfolding py_len_def by linarith
  then have "max_len \<le> 0 \<Longrightarrow> py_len text \<le> max_len \<Longrightarrow> text = []"
    by simp
  then have b: "py_len text \<le> max_len \<longrightarrow> ellipsize_middle_default text max_len = text"
    by (auto simp: ellipsize_middle_default_def ellipsize_middle_def)
  have c: "0 < max_len \<and> max_len \<le> 3 \<and> max_len < py_len text
        \<longrightarrow> ellipsize_middle_default text max_len = take (nat max_len) text"
    by (simp add: ellipsize_middle_default_def ellipsize_middle_def py_len_def slice_to_def)
  have d: "py_len (ellipsize_middle_default text max_len) = min (py_len text) (max 0 max_len)"
  proof -
    consider "max_len \<le> 0" | "0 < max_len" "py_len text \<le> max_len"
      | "0 < max_len" "max_len < py_len text" "max_len \<le> 3"
      | "3 < max_len" "max_len < py_len text"
      by linarith
    then show ?thesis
    proof cases
      case 1
      then show ?thesis using a by (simp add: py_len_def)
    next
      case 2
      then show ?thesis using b by (simp add: py_len_def)
    next
      case 3
      then show ?thesis using c by (simp add: py_len_def)
    next
      case 4
      define keep where "keep = max_len - 3"
      define left where "left = (keep + 1) div 2"
      define right where "right = keep - left"
      have k: "1 \<le> keep" using 4 by (simp add: keep_def)
      have l: "0 < left" "left \<le> keep" using k by (simp_all add: left_def)
      have r: "0 \<le> right" using k by (simp add: right_def left_def)
      have len: "keep + 3 < int (length text)" using 4 by (simp add: keep_def py_len_def)
      have n: "\<not> max_len \<le> 0" "\<not> py_len text \<le> max_len" "\<not> max_len \<le> 3"
        and p: "py_len ''...'' = 3"
        using 4 by (simp_all add: py_len_def)
      have e: "ellipsize_middle_default text max_len
             = slice_to text left @ ''...''
               @ (if right > 0 then slice_from text (- right) else '''')"
        unfolding ellipsize_middle_default_def ellipsize_middle_def Let_def left_def right_def
          keep_def p
        by (simp only: n if_False)
      have ll: "nat left \<le> length text" "nat right \<le> length text"
        using l r len unfolding right_def by linarith+
      have "length (ellipsize_middle_default text max_len) = nat left + 3 + nat right"
        using l r ll by (simp add: e length_slice_to_pos length_slice_from_neg min_def)
      then have "int (length (ellipsize_middle_default text max_len)) = left + 3 + right"
        using l r by simp
      then show ?thesis using 4 by (simp add: py_len_def right_def keep_def)
    qed
  qed
  show ?thesis using a b c d by blast
qed

theorem ellipsize_middle_total_witness:
  "py_len (ellipsize_middle_default ''abcdefgh'' 5) = min (py_len ''abcdefgh'') (max 0 5)
   \<and> ellipsize_middle_default ''abcdefgh'' 5 = ''a...h''
   \<and> ((0::int) \<le> 0 \<and> ellipsize_middle_default ''abcdefgh'' 0 = '''')
   \<and> (py_len ''abc'' \<le> 3 \<and> ellipsize_middle_default ''abc'' 3 = ''abc'')
   \<and> ((0::int) < 2 \<and> (2::int) \<le> 3 \<and> 2 < py_len ''abcdefgh''
        \<and> ellipsize_middle_default ''abcdefgh'' 2 = take (nat 2) ''abcdefgh'')"
  using ellipsize_middle_total [of "''abcdefgh''" 5]
    ellipsize_middle_total [of "''abcdefgh''" 0]
    ellipsize_middle_total [of "''abc''" 3]
    ellipsize_middle_total [of "''abcdefgh''" 2]
  by (simp add: py_len_def ellipsize_middle_default_def ellipsize_middle_def Let_def
      slice_to_def slice_from_def)

section \<open>Properties of the matcher\<close>

lemma item_ok_One: "item_ok (One c) t = (\<exists>x. t = [x] \<and> cls_ok c x)"
  by (auto split: list.splits)

lemma matches_Nil [simp]: "matches [] r s = (r = [])"
  by (auto simp: matches_def)

lemma take_append_eq:
  "(take (length t + length u) s = t @ u)
     = (take (length t) s = t \<and> take (length u) (drop (length t) s) = u)"
proof
  assume a: "take (length t + length u) s = t @ u"
  then have "length (take (length t + length u) s) = length t + length u" by simp
  then have "length t + length u \<le> length s" by simp
  then have "length (take (length t) s) = length t" by simp
  moreover have "take (length t) s @ take (length u) (drop (length t) s) = t @ u"
    using a by (simp add: take_add)
  ultimately show "take (length t) s = t \<and> take (length u) (drop (length t) s) = u"
    by (metis append_eq_append_conv)
next
  assume "take (length t) s = t \<and> take (length u) (drop (length t) s) = u"
  then show "take (length t + length u) s = t @ u" by (simp add: take_add)
qed

lemma matches_Cons:
  "matches (i # items) r s
     = (\<exists>t ts. r = t # ts \<and> item_ok i t \<and> take (length t) s = t
          \<and> matches items ts (drop (length t) s))"
  unfolding matches_def list_all2_Cons1
  by (auto simp: take_append_eq)

lemma matches_push_Plus:
  "cls_ok c x \<Longrightarrow> matches (GreedyStar c # rest) r xs
     \<Longrightarrow> matches (Plus c # rest) (push x r) (x # xs)"
  by (auto simp: matches_Cons)

lemma matches_push_GreedyStar:
  "cls_ok c x \<Longrightarrow> matches (GreedyStar c # rest) r xs
     \<Longrightarrow> matches (GreedyStar c # rest) (push x r) (x # xs)"
  by (auto simp: matches_Cons)

lemma matches_push_LazyStar:
  "cls_ok c x \<Longrightarrow> matches (LazyStar c # rest) r xs
     \<Longrightarrow> matches (LazyStar c # rest) (push x r) (x # xs)"
  by (auto simp: matches_Cons)

lemma matches_empty_star:
  "matches rest r s \<Longrightarrow> matches (GreedyStar c # rest) ([] # r) s"
  "matches rest r s \<Longrightarrow> matches (LazyStar c # rest) ([] # r) s"
  by (auto simp: matches_Cons)

text \<open>Whatever the matcher returns is a match of the pattern at the start of the line.\<close>

lemma bt_sound: "bt items s = Some r \<Longrightarrow> matches items r s"
proof (induction items s arbitrary: r rule: bt.induct)
  case (1 s)
  then show ?case by simp
next
  case (2 c rest)
  then show ?case by simp
next
  case (3 c rest x xs)
  then show ?case by (auto simp: matches_Cons split: if_splits)
next
  case (4 c rest)
  then show ?case by simp
next
  case (5 c rest x xs)
  then show ?case by (auto split: if_splits intro: matches_push_Plus)
next
  case (6 c rest)
  then show ?case by (auto intro: matches_empty_star)
next
  case (7 c rest x xs)
  then show ?case
    by (auto split: if_splits option.splits intro: matches_empty_star matches_push_GreedyStar)
next
  case (8 c rest s)
  show ?case
  proof (cases "bt rest s")
    case (Some r')
    then have "r = [] # r'" using "8.prems" by simp
    then show ?thesis using "8.IH"(1) [OF Some] by (simp add: matches_empty_star)
  next
    case None
    then obtain x xs r' where s: "s = x # xs" and x: "cls_ok c x"
      and b: "bt (LazyStar c # rest) xs = Some r'" and r: "r = push x r'"
      using "8.prems" by (cases s) (auto split: if_splits)
    have "matches (LazyStar c # rest) r' xs" using "8.IH"(2) [OF None s x b] .
    then show ?thesis using x s r by (simp add: matches_push_LazyStar)
  qed
qed

section \<open>The timestamp of a matched line always parses\<close>

lemma is_digit_sep: "is_digit d \<Longrightarrow> d \<noteq> CHR ''.'' \<and> d \<noteq> CHR '':''"
  by (auto simp: is_digit_def)

lemma digit_val_nonneg: "is_digit d \<Longrightarrow> 0 \<le> digit_val d"
  by (auto simp: is_digit_def digit_val_def)

lemma parse_ts_ms_shape:
  assumes "is_digit d0" "is_digit d1" "is_digit d2" "is_digit d3" "is_digit d4" "is_digit d5"
    "is_digit d6" "is_digit d7" "is_digit d8"
    and "cls_ok Sep s1" "cls_ok Sep s2" "cls_ok Sep s3"
  shows "parse_ts_ms [d0, d1, s1, d2, d3, s2, d4, d5, s3, d6, d7, d8]
     = Some ((((10 * digit_val d0 + digit_val d1) * 60 + (10 * digit_val d2 + digit_val d3)) * 60
               + (10 * digit_val d4 + digit_val d5)) * 1000
             + (10 * (10 * digit_val d6 + digit_val d7) + digit_val d8))"
  using assms is_digit_sep [of d0] is_digit_sep [of d1] is_digit_sep [of d2] is_digit_sep [of d3]
    is_digit_sep [of d4] is_digit_sep [of d5] is_digit_sep [of d6] is_digit_sep [of d7]
    is_digit_sep [of d8]
  by (auto simp: parse_ts_ms_def replace_dot_def py_int_def)

lemma matches_LINE_RE_ts:
  assumes "matches LINE_RE r s"
  shows "\<exists>d0 d1 s1 d2 d3 s2 d4 d5 s3 d6 d7 d8.
           concat (take 12 r) = [d0, d1, s1, d2, d3, s2, d4, d5, s3, d6, d7, d8]
         \<and> is_digit d0 \<and> is_digit d1 \<and> is_digit d2 \<and> is_digit d3 \<and> is_digit d4 \<and> is_digit d5
         \<and> is_digit d6 \<and> is_digit d7 \<and> is_digit d8
         \<and> cls_ok Sep s1 \<and> cls_ok Sep s2 \<and> cls_ok Sep s3"
  using assms unfolding LINE_RE_def
  by (auto simp: matches_Cons item_ok_One simp del: cls_ok.simps(2) item_ok.simps(1))

lemma iter_line_ts:
  assumes "iter_line raw = Some ev"
  shows "\<exists>ms. parse_ts_ms (ev_ts ev) = Some ms \<and> 0 \<le> ms"
proof -
  obtain r where b: "bt LINE_RE (rstrip_nl raw) = Some r" and e: "ev = groups r"
    using assms by (auto simp: iter_line_def LINE_RE_search_def Let_def split: if_splits)
  obtain d0 d1 s1 d2 d3 s2 d4 d5 s3 d6 d7 d8 where
    t: "concat (take 12 r) = [d0, d1, s1, d2, d3, s2, d4, d5, s3, d6, d7, d8]"
    and d: "is_digit d0" "is_digit d1" "is_digit d2" "is_digit d3" "is_digit d4" "is_digit d5"
      "is_digit d6" "is_digit d7" "is_digit d8"
    and s: "cls_ok Sep s1" "cls_ok Sep s2" "cls_ok Sep s3"
    using matches_LINE_RE_ts [OF bt_sound [OF b]] by blast
  have ts: "ev_ts ev = [d0, d1, s1, d2, d3, s2, d4, d5, s3, d6, d7, d8]"
    using e t by (simp add: groups_def)
  have n: "0 \<le> digit_val d0" "0 \<le> digit_val d1" "0 \<le> digit_val d2" "0 \<le> digit_val d3"
    "0 \<le> digit_val d4" "0 \<le> digit_val d5" "0 \<le> digit_val d6" "0 \<le> digit_val d7"
    "0 \<le> digit_val d8"
    using d by (simp_all add: digit_val_nonneg)
  show ?thesis
    unfolding ts parse_ts_ms_shape [OF d s] using n by simp
qed

section \<open>The loop body never raises\<close>

lemma process_line_None: "iter_line raw = None \<Longrightarrow> process_line st raw = Some st"
  by (simp add: process_line_def)

lemma process_line_Some:
  assumes "iter_line raw = Some ev" and "parse_ts_ms (ev_ts ev) = Some ms"
  shows "process_line st raw
     = Some (apply_event
               (st\<lparr>last_abs_ms := Some (fst (clock_step (last_abs_ms st) (day_offset st) ms)),
                   day_offset := snd (clock_step (last_abs_ms st) (day_offset st) ms)\<rparr>)
               (ev_tid ev) (ev_arrow ev) (ev_method ev)
               (fst (clock_step (last_abs_ms st) (day_offset st) ms)))"
  using assms by (simp add: process_line_def Let_def split: prod.splits)

lemma process_line_total: "\<exists>st'. process_line st raw = Some st'"
proof (cases "iter_line raw")
  case None
  then show ?thesis by (simp add: process_line_None)
next
  case (Some ev)
  then obtain ms where "parse_ts_ms (ev_ts ev) = Some ms" using iter_line_ts by blast
  then show ?thesis using Some by (simp add: process_line_Some)
qed

lemma run_total: "\<exists>st'. run st raws = Some st'"
proof (induction raws arbitrary: st)
  case Nil
  show ?case by simp
next
  case (Cons raw raws)
  obtain st1 where "process_line st raw = Some st1" using process_line_total by blast
  then show ?case using Cons.IH [of st1] by simp
qed

section \<open>Properties of the Call-Stack Reconstructor\<close>

declare pop_until.simps [simp del] put_back.simps [simp del]

lemma pop_until_no_match:
  "method \<notin> fst ` set stk \<Longrightarrow> pop_until method stk temp = (None, [], temp @ rev stk)"
proof (induction stk arbitrary: temp rule: rev_induct)
  case Nil
  show ?case by (subst pop_until.simps) simp
next
  case (snoc f fs)
  obtain mth s_ms where f: "f = (mth, s_ms)" by (cases f)
  have "mth \<noteq> method" and "method \<notin> fst ` set fs" using snoc.prems f by auto
  then show ?case using snoc.IH [of "temp @ [(mth, s_ms)]"] f
    by (subst pop_until.simps) simp
qed

lemma pop_until_match:
  "method \<notin> fst ` set upper \<Longrightarrow>
   pop_until method (lower @ (method, start) # upper) temp
     = (Some (method, start), lower, temp @ rev upper)"
proof (induction upper arbitrary: temp rule: rev_induct)
  case Nil
  show ?case by (subst pop_until.simps) simp
next
  case (snoc f fs)
  obtain mth s_ms where f: "f = (mth, s_ms)" by (cases f)
  have n: "mth \<noteq> method" and "method \<notin> fst ` set fs" using snoc.prems f by auto
  then have ih: "pop_until method (lower @ (method, start) # fs) (temp @ [(mth, s_ms)])
     = (Some (method, start), lower, (temp @ [(mth, s_ms)]) @ rev fs)"
    using snoc.IH by blast
  have e: "lower @ (method, start) # fs @ [f] = (lower @ (method, start) # fs) @ [f]" by simp
  show ?case unfolding e using n ih f
    by (subst pop_until.simps) (simp del: append_assoc)
qed

text \<open>The second loop restores the frames it is given in their original order.\<close>

lemma put_back_rev: "put_back stk temp = stk @ rev temp"
proof (induction temp arbitrary: stk rule: rev_induct)
  case Nil
  show ?case by (subst put_back.simps) simp
next
  case (snoc f fs)
  show ?case using snoc.IH [of "stk @ [f]"] by (subst put_back.simps) simp
qed

lemma apply_event_other:
  "tid' \<noteq> tid \<Longrightarrow> stacks (apply_event st tid arrow method abs_ms) tid' = stacks st tid'"
  by (simp add: apply_event_def Let_def split: prod.splits option.splits)

lemma apply_event_clock:
  "last_abs_ms (apply_event st tid arrow method abs_ms) = last_abs_ms st"
  "day_offset (apply_event st tid arrow method abs_ms) = day_offset st"
  by (simp_all add: apply_event_def Let_def split: prod.splits option.splits)

lemma apply_event_stats:
  "stats (apply_event st tid arrow method abs_ms)
     = (case completed_interval st tid arrow method abs_ms of
          None \<Rightarrow> stats st
        | Some (m, d) \<Rightarrow> if 0 \<le> d then aggregate (stats st) m d else stats st)"
  by (simp add: apply_event_def completed_interval_def Let_def split: prod.splits option.splits)

text \<open>
  C1 (as amended). For an exit event on a thread whose stack holds a frame for the
  method, the topmost such frame being below the frames \<open>upper\<close>: only the matching frame
  is removed. The frames above it are put back in their order and stay on the stack, where
  later exits can match them. The interval \<open>(method, t - start)\<close> is completed, and
  aggregated when its duration is not negative.
\<close>

theorem exit_matched_keeps_upper_frames:
  assumes "arrow \<noteq> ''>''"
    and "stack_of (stacks st) tid = lower @ (method, start) # upper"
    and "method \<notin> fst ` set upper"
  shows "stack_of (stacks (apply_event st tid arrow method abs_ms)) tid = lower @ upper
       \<and> completed_interval st tid arrow method abs_ms = Some (method, abs_ms - start)
       \<and> stats (apply_event st tid arrow method abs_ms)
           = (if 0 \<le> abs_ms - start then aggregate (stats st) method (abs_ms - start)
              else stats st)"
  using assms
  by (simp add: apply_event_def completed_interval_def Let_def pop_until_match put_back_rev
      stack_of_def)

theorem exit_matched_keeps_upper_frames_witness:
  "''<'' \<noteq> ''>''
   \<and> stack_of (stacks (apply_event (apply_event init_state ''0x1'' ''>'' ''A'' 0)
                          ''0x1'' ''>'' ''B'' 1)) ''0x1''
       = [] @ (''A'', 0) # [(''B'', 1)]
   \<and> ''A'' \<notin> fst ` set [(''B'', 1::int)]
   \<and> stack_of (stacks (apply_event
                          (apply_event (apply_event init_state ''0x1'' ''>'' ''A'' 0)
                             ''0x1'' ''>'' ''B'' 1)
                          ''0x1'' ''<'' ''A'' 2)) ''0x1''
       = [(''B'', 1)]
   \<and> completed_interval
         (apply_event (apply_event init_state ''0x1'' ''>'' ''A'' 0) ''0x1'' ''>'' ''B'' 1)
         ''0x1'' ''<'' ''A'' 2
       = Some (''A'', 2)"
proof -
  have h1: "''<'' \<noteq> ''>''" by simp
  have h2: "stack_of (stacks (apply_event (apply_event init_state ''0x1'' ''>'' ''A'' 0)
                          ''0x1'' ''>'' ''B'' 1)) ''0x1''
       = [] @ (''A'', 0) # [(''B'', 1)]"
    by (simp add: apply_event_def init_state_def stack_of_def)
  have h3: "''A'' \<notin> fst ` set [(''B'', 1::int)]" by simp
  show ?thesis
    using h1 h2 h3 exit_matched_keeps_upper_frames [OF h1 h2 h3, of 2] by simp
qed

text \<open>
  The claim as it was stated fails on \<open>Entry(A,0), Entry(B,1), Exit(A,2)\<close>: the frame of
  \<open>B\<close>, above the matching one, is still on the stack afterwards, and a later
  \<open>Exit(B,3)\<close> completes an interval for it.
\<close>

theorem exit_discards_upper_frames_counterexample:
  "stack_of (stacks (apply_event (apply_event init_state ''0x1'' ''>'' ''A'' 0)
                       ''0x1'' ''>'' ''B'' 1)) ''0x1''
     = [(''A'', 0), (''B'', 1)]
   \<and> stack_of (stacks (apply_event
                          (apply_event (apply_event init_state ''0x1'' ''>'' ''A'' 0)
                             ''0x1'' ''>'' ''B'' 1)
                          ''0x1'' ''<'' ''A'' 2)) ''0x1''
       = [(''B'', 1)]
   \<and> stack_of (stacks (apply_event
                          (apply_event (apply_event init_state ''0x1'' ''>'' ''A'' 0)
                             ''0x1'' ''>'' ''B'' 1)
                          ''0x1'' ''<'' ''A'' 2)) ''0x1''
       \<noteq> []
   \<and> completed_interval
         (apply_event
            (apply_event (apply_event init_state ''0x1'' ''>'' ''A'' 0) ''0x1'' ''>'' ''B'' 1)
            ''0x1'' ''<'' ''A'' 2)
         ''0x1'' ''<'' ''B'' 3
       = Some (''B'', 2)"
  by (simp add: apply_event_def completed_interval_def init_state_def stack_of_def Let_def
      pop_until.simps put_back.simps)

text \<open>
  C4. An exit event on a thread whose stack is empty or holds no frame for the method
  is dropped: no interval is completed, the statistics do not change, and the stack of
  the thread holds the same frames in the same order as before.
\<close>

theorem exit_unmatched_dropped:
  assumes "arrow \<noteq> ''>''" and "method \<notin> fst ` set (stack_of (stacks st) tid)"
  shows "stack_of (stacks (apply_event st tid arrow method abs_ms)) tid = stack_of (stacks st) tid
       \<and> stats (apply_event st tid arrow method abs_ms) = stats st
       \<and> completed_interval st tid arrow method abs_ms = None"
  using assms
  by (simp add: apply_event_def completed_interval_def Let_def pop_until_no_match put_back_rev
      stack_of_def)

theorem exit_unmatched_dropped_witness:
  "''<'' \<noteq> ''>''
   \<and> ''X'' \<notin> fst ` set (stack_of (stacks (apply_event (apply_event init_state ''0x1'' ''>'' ''A'' 0)
                          ''0x1'' ''>'' ''B'' 1)) ''0x1'')
   \<and> stack_of (stacks (apply_event
                          (apply_event (apply_event init_state ''0x1'' ''>'' ''A'' 0)
                             ''0x1'' ''>'' ''B'' 1)
                          ''0x1'' ''<'' ''X'' 2)) ''0x1''
       = [(''A'', 0), (''B'', 1)]
   \<and> stats (apply_event
               (apply_event (apply_event init_state ''0x1'' ''>'' ''A'' 0) ''0x1'' ''>'' ''B'' 1)
               ''0x1'' ''<'' ''X'' 2)
       = []
   \<and> completed_interval
         (apply_event (apply_event init_state ''0x1'' ''>'' ''A'' 0) ''0x1'' ''>'' ''B'' 1)
         ''0x1'' ''<'' ''X'' 2
       = None"
proof -
  have h1: "''<'' \<noteq> ''>''" by simp
  have s: "stack_of (stacks (apply_event (apply_event init_state ''0x1'' ''>'' ''A'' 0)
                          ''0x1'' ''>'' ''B'' 1)) ''0x1'' = [(''A'', 0), (''B'', 1)]"
    and t: "stats (apply_event (apply_event init_state ''0x1'' ''>'' ''A'' 0)
                          ''0x1'' ''>'' ''B'' 1) = []"
    by (simp_all add: apply_event_def init_state_def stack_of_def)
  have h2: "''X'' \<notin> fst ` set (stack_of (stacks (apply_event
                (apply_event init_state ''0x1'' ''>'' ''A'' 0) ''0x1'' ''>'' ''B'' 1)) ''0x1'')"
    unfolding s by simp
  show ?thesis
    using h1 h2 s t exit_unmatched_dropped [OF h1 h2, of 2] by simp
qed

text \<open>
  C7. Processing one event that carries the thread id \<open>tid\<close>, entry or exit, matched or
  not, leaves the stack of every other thread id as it was. This holds for the step on
  an event and for the whole loop body on a raw line that parses to an event of \<open>tid\<close>
  (where the loop body does return a state).
\<close>

theorem other_threads_unchanged:
  assumes "tid' \<noteq> tid"
  shows "stacks (apply_event st tid arrow method abs_ms) tid' = stacks st tid'
       \<and> (map_option ev_tid (iter_line raw) = Some tid
            \<longrightarrow> map_option (\<lambda>st'. stacks st' tid') (process_line st raw)
                  = Some (stacks st tid'))"
proof -
  have a: "stacks (apply_event st tid arrow method abs_ms) tid' = stacks st tid'"
    using assms by (rule apply_event_other)
  have b: "map_option (\<lambda>st'. stacks st' tid') (process_line st raw) = Some (stacks st tid')"
    if h: "map_option ev_tid (iter_line raw) = Some tid"
  proof -
    obtain ev where e: "iter_line raw = Some ev" and t: "ev_tid ev = tid"
      using h by (cases "iter_line raw") auto
    obtain ms where p: "parse_ts_ms (ev_ts ev) = Some ms"
      using iter_line_ts [OF e] by blast
    show ?thesis
      unfolding process_line_Some [OF e p] t using assms by (simp add: apply_event_other)
  qed
  show ?thesis using a b by blast
qed

theorem other_threads_unchanged_witness:
  "''0x2'' \<noteq> ''0x1''
   \<and> map_option ev_tid (iter_line ''10:00:00:000 0x1 < A'') = Some ''0x1''
   \<and> stacks (apply_event (apply_event init_state ''0x2'' ''>'' ''A'' 0) ''0x1'' ''<'' ''A'' 5) ''0x2''
       = Some [(''A'', 0)]
   \<and> map_option (\<lambda>st'. stacks st' ''0x2'')
        (process_line (apply_event init_state ''0x2'' ''>'' ''A'' 0) ''10:00:00:000 0x1 < A'')
       = Some (Some [(''A'', 0)])"
proof -
  have h1: "''0x2'' \<noteq> ''0x1''" by simp
  have h2: "map_option ev_tid (iter_line ''10:00:00:000 0x1 < A'') = Some ''0x1''"
    by code_simp
  have s: "stacks (apply_event init_state ''0x2'' ''>'' ''A'' 0) ''0x2'' = Some [(''A'', 0)]"
    by (simp add: apply_event_def init_state_def stack_of_def)
  show ?thesis
    using h1 h2 s
      other_threads_unchanged [OF h1, of "apply_event init_state ''0x2'' ''>'' ''A'' 0"
        "''<''" "''A''" 5 "''10:00:00:000 0x1 < A''"]
    by simp
qed

section \<open>Properties of the Clock Normalizer\<close>

lemma clock_step_bounds:
  assumes "0 \<le> ms" and "ms < day_ms"
    and "\<forall>l. last_abs = Some l \<longrightarrow> l < off + day_ms"
  shows "fst (clock_step last_abs off ms) < snd (clock_step last_abs off ms) + day_ms"
    and "\<forall>l. last_abs = Some l \<longrightarrow> l \<le> fst (clock_step last_abs off ms)"
  using assms by (auto simp: clock_step_def Let_def split: option.splits)

lemma abs_times_sorted_gen:
  assumes "list_all in_day raws"
    and "\<forall>l. last_abs_ms st = Some l \<longrightarrow> l < day_offset st + day_ms"
  shows "sorted (abs_times st raws)
       \<and> (\<forall>l. last_abs_ms st = Some l \<longrightarrow> (\<forall>t\<in>set (abs_times st raws). l \<le> t))"
  using assms
proof (induction raws arbitrary: st)
  case Nil
  show ?case by simp
next
  case (Cons raw raws)
  have rest: "list_all in_day raws"
    using Cons.prems(1) by simp
  have "in_day raw" using Cons.prems(1) by simp
  show ?case
  proof (cases "iter_line raw")
    case None
    then have "abs_times st (raw # raws) = abs_times st raws"
      by (simp add: process_line_None)
    then show ?thesis using Cons.IH [OF rest Cons.prems(2)] by simp
  next
    case (Some ev)
    obtain ms where p: "parse_ts_ms (ev_ts ev) = Some ms" and n: "0 \<le> ms"
      using iter_line_ts [OF Some] by blast
    have d: "ms < day_ms" using \<open>in_day raw\<close> Some p by (simp add: in_day_def)
    define a where "a = fst (clock_step (last_abs_ms st) (day_offset st) ms)"
    define off where "off = snd (clock_step (last_abs_ms st) (day_offset st) ms)"
    define st' where "st' = apply_event (st\<lparr>last_abs_ms := Some a, day_offset := off\<rparr>)
                              (ev_tid ev) (ev_arrow ev) (ev_method ev) a"
    have pl: "process_line st raw = Some st'"
      unfolding st'_def a_def off_def by (rule process_line_Some [OF Some p])
    have e: "abs_times st (raw # raws) = a # abs_times st' raws"
      using pl Some p by (simp add: a_def)
    have l': "last_abs_ms st' = Some a" and o': "day_offset st' = off"
      by (simp_all add: st'_def apply_event_clock)
    have b: "a < off + day_ms" and m: "\<forall>l. last_abs_ms st = Some l \<longrightarrow> l \<le> a"
      unfolding a_def off_def using clock_step_bounds [OF n d Cons.prems(2)] by blast+
    have "\<forall>l. last_abs_ms st' = Some l \<longrightarrow> l < day_offset st' + day_ms"
      using b l' o' by simp
    from Cons.IH [OF rest this]
    have ih: "sorted (abs_times st' raws)" "\<forall>t\<in>set (abs_times st' raws). a \<le> t"
      using l' by blast+
    show ?thesis unfolding e using ih m by fastforce
  qed
qed

lemma length_abs_times:
  "length (abs_times st raws) = length (filter (\<lambda>raw. iter_line raw \<noteq> None) raws)"
proof (induction raws arbitrary: st)
  case Nil
  show ?case by simp
next
  case (Cons raw raws)
  show ?case
  proof (cases "iter_line raw")
    case None
    then show ?thesis using Cons.IH [of st] by (simp add: process_line_None)
  next
    case (Some ev)
    obtain ms where p: "parse_ts_ms (ev_ts ev) = Some ms"
      using iter_line_ts [OF Some] by blast
    show ?thesis using Some p Cons.IH by (simp add: process_line_Some [OF Some p])
  qed
qed

text \<open>
  C3. On the domain of the Clock Normalizer, events whose time of day is below one day
  (86,400,000 ms; what \<open>H \<le> 23\<close>, \<open>M, S \<le> 59\<close> give), the Clock Normalizer computes
  \<open>candidate = time_of_day + day_offset\<close>, adds one day to \<open>day_offset\<close> and recomputes
  when the candidate is below the previous absolute time, every event gets an absolute
  time, and the sequence of absolute times is non-decreasing. The timestamps
  \<open>23:59:59:900\<close> then \<open>00:00:00:100\<close> give \<open>t2 > t1\<close> with \<open>t2 - t1 = 200\<close>.
\<close>

theorem abs_times_nondecreasing:
  assumes "list_all in_day raws"
  shows "sorted (abs_times init_state raws)
       \<and> length (abs_times init_state raws) = length (filter (\<lambda>raw. iter_line raw \<noteq> None) raws)
       \<and> clock_step None off ms = (ms + off, off)
       \<and> clock_step (Some l) off ms
           = (if ms + off < l then (ms + (off + 86400000), off + 86400000) else (ms + off, off))
       \<and> abs_times init_state [''23:59:59:900 0x1 > f()V'', ''00:00:00:100 0x1 < f()V'']
           = [86399900, 86400100]"
proof -
  have "\<forall>l. last_abs_ms init_state = Some l \<longrightarrow> l < day_offset init_state + day_ms"
    by (simp add: init_state_def)
  then have a: "sorted (abs_times init_state raws)"
    using abs_times_sorted_gen [OF assms] by blast
  have c: "clock_step None off ms = (ms + off, off)"
    "clock_step (Some l) off ms
           = (if ms + off < l then (ms + (off + 86400000), off + 86400000) else (ms + off, off))"
    by (simp_all add: clock_step_def day_ms_def)
  have e: "abs_times init_state [''23:59:59:900 0x1 > f()V'', ''00:00:00:100 0x1 < f()V'']
           = [86399900, 86400100]"
    by code_simp
  show ?thesis using a c e length_abs_times by blast
qed

theorem abs_times_nondecreasing_witness:
  "list_all in_day [''10:00:00:000 0x1 > f()V'', ''not a trace line'', ''09:00:00:000 0x1 < f()V'']
   \<and> abs_times init_state
        [''10:00:00:000 0x1 > f()V'', ''not a trace line'', ''09:00:00:000 0x1 < f()V'']
       = [36000000, 118800000]
   \<and> sorted (abs_times init_state
        [''10:00:00:000 0x1 > f()V'', ''not a trace line'', ''09:00:00:000 0x1 < f()V''])"
proof -
  have h: "list_all in_day
     [''10:00:00:000 0x1 > f()V'', ''not a trace line'', ''09:00:00:000 0x1 < f()V'']"
    by code_simp
  have v: "abs_times init_state
        [''10:00:00:000 0x1 > f()V'', ''not a trace line'', ''09:00:00:000 0x1 < f()V'']
       = [36000000, 118800000]"
    by code_simp
  show ?thesis using h v abs_times_nondecreasing [OF h] by blast
qed

section \<open>Properties of the Aggregator\<close>

lemma stat_of_aggregate:
  "stat_of (aggregate sts m d) m'
     = (if m' = m then \<lparr>count_n = count_n (stat_of sts m) + 1,
                          total_ms = total_ms (stat_of sts m) + d\<rparr>
        else stat_of sts m')"
  by (simp add: stat_of_def aggregate_def Let_def update_conv')

lemma run_counts:
  "run st raws = Some st' \<Longrightarrow>
     count_n (stat_of (stats st') m)
       = count_n (stat_of (stats st) m)
         + int (length (filter (\<lambda>iv. fst iv = m \<and> 0 \<le> snd iv) (intervals st raws)))
   \<and> total_ms (stat_of (stats st') m)
       = total_ms (stat_of (stats st) m)
         + sum_list (map snd (filter (\<lambda>iv. fst iv = m \<and> 0 \<le> snd iv) (intervals st raws)))"
proof (induction raws arbitrary: st)
  case Nil
  then show ?case by simp
next
  case (Cons raw raws)
  show ?case
  proof (cases "iter_line raw")
    case None
    then show ?thesis using Cons.IH [of st] Cons.prems by (simp add: process_line_None)
  next
    case (Some ev)
    obtain ms where p: "parse_ts_ms (ev_ts ev) = Some ms"
      using iter_line_ts [OF Some] by blast
    define a where "a = fst (clock_step (last_abs_ms st) (day_offset st) ms)"
    define off where "off = snd (clock_step (last_abs_ms st) (day_offset st) ms)"
    define st1 where "st1 = st\<lparr>last_abs_ms := Some a, day_offset := off\<rparr>"
    define st2 where "st2 = apply_event st1 (ev_tid ev) (ev_arrow ev) (ev_method ev) a"
    define ci where "ci = completed_interval st1 (ev_tid ev) (ev_arrow ev) (ev_method ev) a"
    have pl: "process_line st raw = Some st2"
      unfolding st2_def st1_def a_def off_def by (rule process_line_Some [OF Some p])
    have r: "run st2 raws = Some st'" using Cons.prems pl by simp
    have iv: "intervals st (raw # raws)
                = (case ci of None \<Rightarrow> intervals st2 raws | Some iv \<Rightarrow> iv # intervals st2 raws)"
      using pl Some p
      by (simp add: ci_def st1_def a_def off_def split: prod.splits)
    have ss: "stats st1 = stats st" by (simp add: st1_def)
    have s: "stats st2 = (case ci of None \<Rightarrow> stats st
                | Some (m', d) \<Rightarrow> if 0 \<le> d then aggregate (stats st) m' d else stats st)"
      unfolding st2_def ci_def apply_event_stats ss ..
    show ?thesis
    proof (cases ci)
      case None
      then show ?thesis using Cons.IH [OF r] iv s by simp
    next
      case (Some i)
      obtain m' d where i: "i = (m', d)" by (cases i)
      show ?thesis using Cons.IH [OF r] iv s Some i
        by (simp add: stat_of_aggregate)
    qed
  qed
qed

text \<open>
  C6. A completed interval with a duration that is not negative adds exactly 1 to the
  count of its method and the duration to its total, and changes no other method; an
  interval with a negative duration changes nothing. A run always ends in a state, in
  which the count of each method is the number of completed intervals of that method
  with a non-negative duration, and its total the sum of their durations.
\<close>

theorem aggregator_counts:
  "stat_of (aggregate sts method dur)
     = (stat_of sts)(method := \<lparr>count_n = count_n (stat_of sts method) + 1,
                                  total_ms = total_ms (stat_of sts method) + dur\<rparr>)
   \<and> stats (apply_event st tid arrow method abs_ms)
       = (case completed_interval st tid arrow method abs_ms of
            None \<Rightarrow> stats st
          | Some (m, d) \<Rightarrow> if 0 \<le> d then aggregate (stats st) m d else stats st)
   \<and> (\<exists>st'. run init_state raws = Some st'
         \<and> (\<forall>m. count_n (stat_of (stats st') m)
                    = int (length (filter (\<lambda>iv. fst iv = m \<and> 0 \<le> snd iv)
                                     (intervals init_state raws)))
                \<and> total_ms (stat_of (stats st') m)
                    = sum_list (map snd (filter (\<lambda>iv. fst iv = m \<and> 0 \<le> snd iv)
                                           (intervals init_state raws)))))"
proof -
  have a: "stat_of (aggregate sts method dur)
     = (stat_of sts)(method := \<lparr>count_n = count_n (stat_of sts method) + 1,
                                  total_ms = total_ms (stat_of sts method) + dur\<rparr>)"
    by (rule ext) (simp add: stat_of_aggregate)
  obtain st' where r: "run init_state raws = Some st'" using run_total by blast
  have z: "stat_of (stats init_state) m = \<lparr>count_n = 0, total_ms = 0\<rparr>" for m
    by (simp add: init_state_def stat_of_def)
  have c: "count_n (stat_of (stats st') m)
                    = int (length (filter (\<lambda>iv. fst iv = m \<and> 0 \<le> snd iv)
                                     (intervals init_state raws)))
         \<and> total_ms (stat_of (stats st') m)
                    = sum_list (map snd (filter (\<lambda>iv. fst iv = m \<and> 0 \<le> snd iv)
                                           (intervals init_state raws)))" for m
    using run_counts [OF r, of m] by (simp add: z)
  show ?thesis using a apply_event_stats r c by blast
qed

section \<open>Properties of the Reporter\<close>

lemma default_key_le:
  "(default_key r1 \<le> default_key r2) = spec_default_order r1 r2"
  by (cases r1; cases r2) (auto simp: default_key_def spec_default_order_def less_eq_prod_def)

text \<open>
  C8. The default ordering of the Reporter: the rows that \<open>compute_stats\<close> returns are
  the rows it built, sorted by descending average, ties broken by descending count and
  then by ascending method name in the lexicographic order.
\<close>

theorem default_order:
  "mset (sort_default rows) = mset rows
   \<and> (\<forall>i j. i < j \<and> j < length (sort_default rows)
        \<longrightarrow> spec_default_order (sort_default rows ! i) (sort_default rows ! j))
   \<and> (\<exists>st. run init_state raws = Some st
          \<and> compute_stats raws = Some (sort_default (result_rows (stats st))))"
proof -
  obtain st where "run init_state raws = Some st" using run_total by blast
  then have c: "\<exists>st. run init_state raws = Some st
          \<and> compute_stats raws = Some (sort_default (result_rows (stats st)))"
    by (simp add: compute_stats_def)
  have "sorted (map default_key (sort_default rows))"
    by (simp add: sort_default_def)
  then have "\<forall>i j. i < j \<and> j < length (sort_default rows)
     \<longrightarrow> default_key (sort_default rows ! i) \<le> default_key (sort_default rows ! j)"
    by (auto simp: sorted_iff_nth_mono_less less_imp_le dest!: spec)
  then show ?thesis using c by (simp add: default_key_le sort_default_def)
qed

theorem default_order_witness:
  "(0::nat) < 1 \<and> 1 < length (sort_default [(''b'', 1, 30, 30), (''a'', 1, 30, 30),
                                             (''c'', 2, 60, 30), (''d'', 1, 120, 120)])
   \<and> sort_default [(''b'', 1, 30, 30), (''a'', 1, 30, 30), (''c'', 2, 60, 30), (''d'', 1, 120, 120)]
       = [(''d'', 1, 120, 120), (''c'', 2, 60, 30), (''a'', 1, 30, 30), (''b'', 1, 30, 30)]
   \<and> spec_default_order
        (sort_default [(''b'', 1, 30, 30), (''a'', 1, 30, 30),
                       (''c'', 2, 60, 30), (''d'', 1, 120, 120)] ! 0)
        (sort_default [(''b'', 1, 30, 30), (''a'', 1, 30, 30),
                       (''c'', 2, 60, 30), (''d'', 1, 120, 120)] ! 1)"
proof -
  have v: "sort_default [(''b'', 1, 30, 30), (''a'', 1, 30, 30),
                         (''c'', 2, 60, 30), (''d'', 1, 120, 120)]
       = [(''d'', 1, 120, 120), (''c'', 2, 60, 30), (''a'', 1, 30, 30), (''b'', 1, 30, 30)]"
    by code_simp
  have h: "(0::nat) < 1 \<and> 1 < length (sort_default [(''b'', 1, 30, 30), (''a'', 1, 30, 30),
                                             (''c'', 2, 60, 30), (''d'', 1, 120, 120)])"
    unfolding v by simp
  show ?thesis
    using h v default_order [of "[(''b'', 1, 30, 30), (''a'', 1, 30, 30),
                                  (''c'', 2, 60, 30), (''d'', 1, 120, 120)]"]
    by blast
qed

text \<open>
  C5. On the four lines of the end-to-end example the analyzer returns exactly two rows:
  \<open>foo()V\<close> with count 1, total 120 and average 120, before \<open>bar()V\<close> with count 1,
  total 30 and average 30.
\<close>

theorem end_to_end_example:
  "compute_stats [''10:00:00:000 0x1 > foo()V'', ''10:00:00:050 0x1 > bar()V'',
                  ''10:00:00:080 0x1 < bar()V'', ''10:00:00:120 0x1 < foo()V'']
     = Some [(''foo()V'', 1, 120, 120), (''bar()V'', 1, 30, 30)]"
  by code_simp

section \<open>Properties of the Line Parser\<close>

text \<open>If any match of the pattern exists, the matcher finds one.\<close>

lemma bt_complete: "matches items r s \<Longrightarrow> bt items s \<noteq> None"
proof (induction items s arbitrary: r rule: bt.induct)
  case (1 s)
  show ?case by simp
next
  case (2 c rest)
  then show ?case by (auto simp: matches_Cons item_ok_One simp del: item_ok.simps(1))
next
  case (3 c rest x xs)
  then show ?case by (auto simp: matches_Cons item_ok_One simp del: item_ok.simps(1))
next
  case (4 c rest)
  then show ?case by (auto simp: matches_Cons)
next
  case (5 c rest x xs)
  from "5.prems" obtain t ts where r: "r = t # ts" and t: "t \<noteq> []" "list_all (cls_ok c) t"
    and p: "take (length t) (x # xs) = t" and m: "matches rest ts (drop (length t) (x # xs))"
    by (auto simp: matches_Cons)
  obtain t' where t': "t = x # t'" using t(1) p by (cases t) auto
  have c: "cls_ok c x" using t(2) t' by simp
  have "matches (GreedyStar c # rest) (t' # ts) xs"
    using t p m t' by (simp add: matches_Cons)
  then have "bt (GreedyStar c # rest) xs \<noteq> None" using "5.IH" [OF c] by blast
  then show ?case using c by auto
next
  case (6 c rest)
  from "6.prems" obtain ts where "matches rest ts []"
    by (auto simp: matches_Cons)
  then show ?case using "6.IH" by auto
next
  case (7 c rest x xs)
  from "7.prems" obtain t ts where r: "r = t # ts" and t: "list_all (cls_ok c) t"
    and p: "take (length t) (x # xs) = t" and m: "matches rest ts (drop (length t) (x # xs))"
    by (auto simp: matches_Cons)
  show ?case
  proof (cases t)
    case Nil
    then have m': "matches rest ts (x # xs)" using m by simp
    show ?thesis
    proof (cases "cls_ok c x")
      case True
      show ?thesis
      proof (cases "bt (GreedyStar c # rest) xs")
        case None
        then show ?thesis using True "7.IH"(2) [OF True None m'] by simp
      next
        case (Some a)
        then show ?thesis using True by simp
      qed
    next
      case False
      then show ?thesis using "7.IH"(3) [OF False m'] by simp
    qed
  next
    case (Cons y t')
    then have y: "y = x" and c: "cls_ok c x" using p t by auto
    have "matches (GreedyStar c # rest) (t' # ts) xs"
      using t p m Cons by (simp add: matches_Cons)
    then have "bt (GreedyStar c # rest) xs \<noteq> None" using "7.IH"(1) [OF c] by blast
    then show ?thesis using c by auto
  qed
next
  case (8 c rest s)
  from "8.prems" obtain t ts where r: "r = t # ts" and t: "list_all (cls_ok c) t"
    and p: "take (length t) s = t" and m: "matches rest ts (drop (length t) s)"
    by (auto simp: matches_Cons)
  show ?case
  proof (cases "bt rest s")
    case (Some a)
    then show ?thesis by simp
  next
    case None
    then have "t \<noteq> []" using m "8.IH"(1) by (cases t) auto
    then obtain x t' where t': "t = x # t'" by (cases t) auto
    then obtain xs where s: "s = x # xs" using p by (cases s) auto
    have c: "cls_ok c x" using t t' by simp
    have "matches (LazyStar c # rest) (t' # ts) xs"
      using t p m t' s by (simp add: matches_Cons)
    then have "bt (LazyStar c # rest) xs \<noteq> None" using "8.IH"(2) [OF None s c] by blast
    then show ?thesis using None s c by auto
  qed
qed

lemma bt_nonempty: "bt (i # K) s = Some r \<Longrightarrow> \<exists>t ts. r = t # ts"
  using bt_sound [of "i # K" s r] by (auto simp: matches_Cons)

lemma bt_tl: "bt items s = Some (t # r) \<Longrightarrow> bt (tl items) (drop (length t) s) = Some r"
proof (induction items s arbitrary: t rule: bt.induct)
  case (1 s)
  then show ?case by simp
next
  case (2 c K)
  then show ?case by simp
next
  case (3 c K x xs)
  then show ?case by (auto split: if_splits)
next
  case (4 c K)
  then show ?case by simp
next
  case (5 c K x xs)
  from "5.prems" obtain r' where c: "cls_ok c x" and b: "bt (GreedyStar c # K) xs = Some r'"
    and p: "t # r = push x r'"
    by (auto split: if_splits)
  obtain t' where r': "r' = t' # r" and t: "t = x # t'"
    using bt_nonempty [OF b] p by auto
  show ?case using "5.IH" [OF c b [unfolded r']] t by simp
next
  case (6 c K)
  then show ?case by auto
next
  case (7 c K x xs)
  show ?case
  proof (cases "cls_ok c x \<and> bt (GreedyStar c # K) xs \<noteq> None")
    case True
    then obtain r' where c: "cls_ok c x" and b: "bt (GreedyStar c # K) xs = Some r'" by auto
    then have p: "t # r = push x r'" using "7.prems" by simp
    obtain t' where r': "r' = t' # r" and t: "t = x # t'"
      using bt_nonempty [OF b] p by auto
    show ?thesis using "7.IH"(1) [OF c b [unfolded r']] t by simp
  next
    case False
    then have "map_option (Cons []) (bt K (x # xs)) = Some (t # r)"
      using "7.prems" by (auto split: if_splits option.splits)
    then show ?thesis by auto
  qed
next
  case (8 c K s)
  show ?case
  proof (cases "bt K s")
    case (Some r')
    then show ?thesis using "8.prems" by simp
  next
    case None
    then obtain x xs r' where s: "s = x # xs" and c: "cls_ok c x"
      and b: "bt (LazyStar c # K) xs = Some r'" and p: "t # r = push x r'"
      using "8.prems" by (cases s) (auto split: if_splits)
    obtain t' where r': "r' = t' # r" and t: "t = x # t'"
      using bt_nonempty [OF b] p by auto
    show ?thesis using "8.IH"(2) [OF None s c b [unfolded r']] t s by simp
  qed
qed

lemma bt_cont: "bt (i # K) s = Some (t # r) \<Longrightarrow> bt K (drop (length t) s) = Some r"
  using bt_tl [of "i # K" s t r] by simp

lemma bt_lazy_first:
  "bt (LazyStar c # K) s = Some (t # r) \<Longrightarrow> j < length t \<Longrightarrow> bt K (drop j s) = None"
proof (induction s arbitrary: t j)
  case Nil
  then show ?case by (auto split: option.splits)
next
  case (Cons x xs)
  show ?case
  proof (cases "bt K (x # xs)")
    case (Some r')
    then show ?thesis using Cons.prems by simp
  next
    case None
    then obtain r' where c: "cls_ok c x"
      and b: "bt (LazyStar c # K) xs = Some r'" and p: "t # r = push x r'"
      using Cons.prems(1) by (auto split: if_splits)
    obtain t' where r': "r' = t' # r" and t: "t = x # t'"
      using bt_nonempty [OF b] p by auto
    show ?thesis
    proof (cases j)
      case 0
      then show ?thesis using None by simp
    next
      case (Suc j')
      then have "j' < length t'" using Cons.prems(2) t by simp
      then show ?thesis using Cons.IH [OF b [unfolded r']] Suc by simp
    qed
  qed
qed

lemma cls_ok_eta:
  "cls_ok Space = is_space" "cls_ok Hex = is_hex" "cls_ok NonSpace = (\<lambda>c. \<not> is_space c)"
  "cls_ok AnyChar = (\<lambda>c. c \<noteq> CHR 0x0A)" "cls_ok Digit = is_digit" "cls_ok Arrow = is_arrow"
  by (rule ext, simp)+

lemma matches_LINE_RE_shape:
  assumes "matches LINE_RE r s"
  obtains d0 d1 s1 d2 d3 s2 d4 d5 s3 d6 d7 d8 w1 h w2 sl a w3 m rest where
    "r = [[d0], [d1], [s1], [d2], [d3], [s2], [d4], [d5], [s3], [d6], [d7], [d8],
          w1, ''0'', ''x'', h, w2, sl, [a], w3, m]"
    and "s = [d0, d1, s1, d2, d3, s2, d4, d5, s3, d6, d7, d8] @ w1 @ ''0x'' @ h
              @ w2 @ sl @ a # w3 @ m @ rest"
    and "w1 \<noteq> []" "list_all is_space w1" "h \<noteq> []" "list_all is_hex h"
    and "w2 \<noteq> []" "list_all is_space w2" "list_all (\<lambda>c. c \<noteq> CHR 0x0A) sl" "is_arrow a"
    and "w3 \<noteq> []" "list_all is_space w3" "m \<noteq> []" "list_all (\<lambda>c. \<not> is_space c) m"
proof -
  have l: "list_all2 item_ok LINE_RE r" and t: "take (length (concat r)) s = concat r"
    using assms by (simp_all add: matches_def)
  have s: "s = concat r @ drop (length (concat r)) s"
    using t by (metis append_take_drop_id)
  from l obtain d0 d1 s1 d2 d3 s2 d4 d5 s3 d6 d7 d8 w1 h w2 sl a w3 m where
    r: "r = [[d0], [d1], [s1], [d2], [d3], [s2], [d4], [d5], [s3], [d6], [d7], [d8],
          w1, ''0'', ''x'', h, w2, sl, [a], w3, m]"
    and p: "w1 \<noteq> []" "list_all is_space w1" "h \<noteq> []" "list_all is_hex h"
     "w2 \<noteq> []" "list_all is_space w2" "list_all (\<lambda>c. c \<noteq> CHR 0x0A) sl" "is_arrow a"
     "w3 \<noteq> []" "list_all is_space w3" "m \<noteq> []" "list_all (\<lambda>c. \<not> is_space c) m"
    unfolding LINE_RE_def
    by (auto simp: list_all2_Cons1 item_ok_One cls_ok_eta
        simp del: item_ok.simps(1) cls_ok.simps(2))
  have "s = [d0, d1, s1, d2, d3, s2, d4, d5, s3, d6, d7, d8] @ w1 @ ''0x'' @ h
              @ w2 @ sl @ a # w3 @ m @ drop (length (concat r)) s"
    by (subst s) (simp add: r)
  then show ?thesis using that r p by blast
qed

lemma bt_drop:
  "bt (pre @ K) s = Some r
     \<Longrightarrow> bt K (drop (length (concat (take (length pre) r))) s) = Some (drop (length pre) r)"
proof (induction pre arbitrary: s r)
  case Nil
  then show ?case by simp
next
  case (Cons i pre)
  obtain t r0 where r: "r = t # r0" using bt_nonempty [of i "pre @ K" s r] Cons.prems by auto
  have "bt (pre @ K) (drop (length t) s) = Some r0"
    using bt_cont [of i "pre @ K" s t r0] Cons.prems r by simp
  from Cons.IH [OF this] show ?case by (simp add: r add.commute)
qed

lemma bt_drop_n:
  assumes "bt (pre @ K) s = Some r" and "length pre = n"
  shows "bt K (drop (length (concat (take n r))) s) = Some (drop n r)"
  using bt_drop [OF assms(1)] assms(2) by simp

lemma takeWhile_run: "list_all P t \<Longrightarrow> \<not> P y \<Longrightarrow> takeWhile P (t @ y # v) = t"
  by (simp add: takeWhile_append2 list_all_iff)

lemma bt_GreedyStar_last: "bt [GreedyStar c] s = Some [takeWhile (cls_ok c) s]"
  by (induction s) simp_all

lemma bt_Plus_last: "bt [Plus c] s = Some [t] \<Longrightarrow> t = takeWhile (cls_ok c) s"
  by (cases s) (auto simp: bt_GreedyStar_last split: if_splits)

lemma arrow_not_space: "is_arrow c \<Longrightarrow> \<not> is_space c"
  by (auto simp: is_arrow_def is_space_def)

lemma space_not_hex: "is_space c \<Longrightarrow> \<not> is_hex c"
  by (auto simp: is_hex_def is_space_def)

lemma LINE_RE_split16:
  "LINE_RE = [One Digit, One Digit, One Sep, One Digit, One Digit, One Sep,
      One Digit, One Digit, One Sep, One Digit, One Digit, One Digit,
      Plus Space, One (Lit (CHR ''0'')), One (Lit (CHR ''x'')), Plus Hex]
     @ [Plus Space, LazyStar AnyChar, One Arrow, Plus Space, Plus NonSpace]"
  by (simp add: LINE_RE_def)

lemma LINE_RE_split20:
  "LINE_RE = [One Digit, One Digit, One Sep, One Digit, One Digit, One Sep,
      One Digit, One Digit, One Sep, One Digit, One Digit, One Digit,
      Plus Space, One (Lit (CHR ''0'')), One (Lit (CHR ''x'')), Plus Hex,
      Plus Space, LazyStar AnyChar, One Arrow, Plus Space]
     @ [Plus NonSpace]"
  by (simp add: LINE_RE_def)

lemma LINE_RE_first_marker:
  assumes b: "bt LINE_RE s = Some r" and m': "matches LINE_RE r' s"
  shows "length (concat (take 18 r)) \<le> length (concat (take 18 r'))"
proof -
  from bt_sound [OF b] obtain d0 d1 s1 d2 d3 s2 d4 d5 s3 d6 d7 d8 w1 h w2 sl a w3 m rest where
    r: "r = [[d0], [d1], [s1], [d2], [d3], [s2], [d4], [d5], [s3], [d6], [d7], [d8],
          w1, ''0'', ''x'', h, w2, sl, [a], w3, m]"
    and s: "s = [d0, d1, s1, d2, d3, s2, d4, d5, s3, d6, d7, d8] @ w1 @ ''0x'' @ h
              @ w2 @ sl @ a # w3 @ m @ rest"
    and p: "w1 \<noteq> []" "list_all is_space w1" "h \<noteq> []" "list_all is_hex h"
      "w2 \<noteq> []" "list_all is_space w2"
    by (rule matches_LINE_RE_shape)
  from m' obtain e0 e1 z1 e2 e3 z2 e4 e5 z3 e6 e7 e8 w1' h' w2' sl' a' w3' n' rest' where
    r': "r' = [[e0], [e1], [z1], [e2], [e3], [z2], [e4], [e5], [z3], [e6], [e7], [e8],
          w1', ''0'', ''x'', h', w2', sl', [a'], w3', n']"
    and s': "s = [e0, e1, z1, e2, e3, z2, e4, e5, z3, e6, e7, e8] @ w1' @ ''0x'' @ h'
              @ w2' @ sl' @ a' # w3' @ n' @ rest'"
    and p': "w1' \<noteq> []" "list_all is_space w1'" "h' \<noteq> []" "list_all is_hex h'"
      "w2' \<noteq> []" "list_all is_space w2'" "list_all (\<lambda>c. c \<noteq> CHR 0x0A) sl'" "is_arrow a'"
      "w3' \<noteq> []" "list_all is_space w3'" "n' \<noteq> []" "list_all (\<lambda>c. \<not> is_space c) n'"
    by (rule matches_LINE_RE_shape)
  define u where "u = w2 @ sl @ a # w3 @ m @ rest"
  define u' where "u' = w2' @ sl' @ a' # w3' @ n' @ rest'"
  have z: "\<not> is_space (CHR ''0'')" by (simp add: is_space_def)
  have e1: "w1 @ CHR ''0'' # CHR ''x'' # h @ u = w1' @ CHR ''0'' # CHR ''x'' # h' @ u'"
    using s s' by (simp add: u_def u'_def)
  have "takeWhile is_space (w1 @ CHR ''0'' # CHR ''x'' # h @ u) = w1"
    using p(2) z by (rule takeWhile_run)
  moreover have "takeWhile is_space (w1' @ CHR ''0'' # CHR ''x'' # h' @ u') = w1'"
    using p'(2) z by (rule takeWhile_run)
  ultimately have w: "w1' = w1" using e1 by simp
  have e2: "h @ u = h' @ u'" using e1 w by simp
  obtain y v where u: "u = y # v" and y: "is_space y"
    using p(5,6) by (cases w2) (auto simp: u_def)
  obtain y' v' where u'c: "u' = y' # v'" and y': "is_space y'"
    using p'(5,6) by (cases w2') (auto simp: u'_def)
  have "takeWhile is_hex (h @ y # v) = h"
    using p(4) space_not_hex [OF y] by (rule takeWhile_run)
  moreover have "takeWhile is_hex (h' @ y' # v') = h'"
    using p'(4) space_not_hex [OF y'] by (rule takeWhile_run)
  ultimately have hh: "h' = h" using e2 u u'c by simp
  have uu: "u' = u" using e2 hh by simp
  have su: "s = ([d0, d1, s1, d2, d3, s2, d4, d5, s3, d6, d7, d8] @ w1 @ ''0x'' @ h) @ u"
    using s by (simp add: u_def)
  have "bt [Plus Space, LazyStar AnyChar, One Arrow, Plus Space, Plus NonSpace]
          (drop (length (concat (take 16 r))) s) = Some (drop 16 r)"
    by (rule bt_drop_n [OF b [unfolded LINE_RE_split16]]) simp
  moreover have "drop (length (concat (take 16 r))) s = u"
    by (subst su) (simp add: r)
  ultimately have bu: "bt [Plus Space, LazyStar AnyChar, One Arrow, Plus Space, Plus NonSpace] u
                         = Some [w2, sl, [a], w3, m]"
    by (simp add: r)
  have bl: "bt [LazyStar AnyChar, One Arrow, Plus Space, Plus NonSpace] (drop (length w2) u)
              = Some [sl, [a], w3, m]"
    using bt_cont [OF bu] .
  have "matches [One Arrow, Plus Space, Plus NonSpace] [[a'], w3', n'] (a' # w3' @ n' @ rest')"
    using p' by (simp add: matches_def cls_ok_eta)
  then have k3: "bt [One Arrow, Plus Space, Plus NonSpace] (a' # w3' @ n' @ rest') \<noteq> None"
    by (rule bt_complete)
  have ua: "u = (w2' @ sl') @ a' # w3' @ n' @ rest'"
    using uu by (simp add: u'_def)
  have q: "length w2 + length sl \<le> length w2' + length sl'"
  proof (rule ccontr)
    assume "\<not> ?thesis"
    then have lt: "length w2' + length sl' < length w2 + length sl" by simp
    have dq: "drop (length w2' + length sl') u = a' # w3' @ n' @ rest'"
      by (subst ua) simp
    show False
    proof (cases "length w2 \<le> length w2' + length sl'")
      case True
      then have "length w2' + length sl' - length w2 < length sl" using lt by simp
      from bt_lazy_first [OF bl this]
      have "bt [One Arrow, Plus Space, Plus NonSpace] (drop (length w2' + length sl') u) = None"
        using True by simp
      then show False using k3 dq by simp
    next
      case False
      then have i: "length w2' + length sl' < length w2" by simp
      have "u ! (length w2' + length sl') = a'"
        by (subst ua) (simp add: nth_append)
      moreover have "u ! (length w2' + length sl') = w2 ! (length w2' + length sl')"
        using i by (simp add: u_def nth_append)
      moreover have "is_space (w2 ! (length w2' + length sl'))"
        using p(6) i by (simp add: list_all_length)
      ultimately show False using arrow_not_space [OF p'(8)] by simp
    qed
  qed
  show ?thesis using q by (simp add: r r' w hh)
qed

lemma LINE_RE_method_greedy:
  assumes b: "bt LINE_RE s = Some r"
  shows "r ! 20 = takeWhile (\<lambda>c. \<not> is_space c) (drop (length (concat (take 20 r))) s)"
proof -
  from bt_sound [OF b] obtain d0 d1 s1 d2 d3 s2 d4 d5 s3 d6 d7 d8 w1 h w2 sl a w3 m where
    r: "r = [[d0], [d1], [s1], [d2], [d3], [s2], [d4], [d5], [s3], [d6], [d7], [d8],
          w1, ''0'', ''x'', h, w2, sl, [a], w3, m]"
    by (rule matches_LINE_RE_shape)
  have "bt [Plus NonSpace] (drop (length (concat (take 20 r))) s) = Some (drop 20 r)"
    by (rule bt_drop_n [OF b [unfolded LINE_RE_split20]]) simp
  then have "bt [Plus NonSpace] (drop (length (concat (take 20 r))) s) = Some [r ! 20]"
    by (simp add: r)
  from bt_Plus_last [OF this] show ?thesis by (simp add: cls_ok_eta)
qed

lemma digit_not_space: "is_digit c \<Longrightarrow> \<not> is_space c"
  by (auto simp: is_digit_def is_space_def)

lemma blank_no_match:
  assumes "list_all is_space s" shows "\<not> matches LINE_RE r s"
proof
  assume m: "matches LINE_RE r s"
  define K where "K = tl LINE_RE"
  have L: "LINE_RE = One Digit # K" by (simp add: K_def LINE_RE_def)
  have "matches (One Digit # K) r s" using m unfolding L .
  then obtain t where i: "item_ok (One Digit) t" and t: "take (length t) s = t"
    unfolding matches_Cons by blast
  obtain x where x: "t = [x]" and d: "is_digit x"
    using i unfolding item_ok_One by auto
  have "x \<in> set s" using t x by (cases s) auto
  then have "is_space x" using assms by (simp add: list_all_iff)
  then show False using digit_not_space [OF d] by simp
qed

text \<open>
  C2 (as amended). The Line Parser yields an event exactly when the full grammar matches
  at the start of the line: timestamp, whitespace, \<open>0x\<close> and hexadecimal digits,
  whitespace, slack, a direction marker, whitespace, a method token without whitespace.
  The direction and the method come from the first direction marker, after the thread
  token and its whitespace, at which the rest of the grammar can be completed (a marker
  that is not followed by whitespace and a token is passed over as slack): among all the
  matches of the grammar on the line, the one that is found has the leftmost marker
  (\<open>length (concat (take 18 r))\<close> is the offset of the marker in the line). The method is
  the longest run of non-whitespace characters after the whitespace that follows the
  marker. A line that the grammar does not match is skipped: the loop body returns the
  state as it was (stacks, rollover state and statistics).
\<close>

theorem line_parser_grammar:
  "(iter_line raw = None \<longleftrightarrow> (\<nexists>r. matches LINE_RE r (rstrip_nl raw)))
   \<and> (iter_line raw = Some ev \<longrightarrow>
        (\<exists>r. matches LINE_RE r (rstrip_nl raw) \<and> ev = groups r
           \<and> (\<forall>r'. matches LINE_RE r' (rstrip_nl raw)
                 \<longrightarrow> length (concat (take 18 r)) \<le> length (concat (take 18 r')))
           \<and> ev_method ev = takeWhile (\<lambda>c. \<not> is_space c)
                               (drop (length (concat (take 20 r))) (rstrip_nl raw))))
   \<and> (iter_line raw = None \<longrightarrow> process_line st raw = Some st)"
proof -
  define line where "line = rstrip_nl raw"
  have a: "iter_line raw = None \<longleftrightarrow> (\<nexists>r. matches LINE_RE r line)"
  proof (cases "list_all is_space line")
    case True
    then show ?thesis using blank_no_match [OF True]
      by (simp add: iter_line_def line_def [symmetric])
  next
    case False
    then have "iter_line raw = None \<longleftrightarrow> bt LINE_RE line = None"
      by (simp add: iter_line_def line_def [symmetric] LINE_RE_search_def)
    then show ?thesis using bt_sound [of LINE_RE line] bt_complete [of LINE_RE _ line]
      by (cases "bt LINE_RE line") auto
  qed
  have b: "\<exists>r. matches LINE_RE r line \<and> ev = groups r
           \<and> (\<forall>r'. matches LINE_RE r' line
                 \<longrightarrow> length (concat (take 18 r)) \<le> length (concat (take 18 r')))
           \<and> ev_method ev = takeWhile (\<lambda>c. \<not> is_space c)
                               (drop (length (concat (take 20 r))) line)"
    if h: "iter_line raw = Some ev"
  proof -
    obtain r where b: "bt LINE_RE line = Some r" and e: "ev = groups r"
      using h
      by (auto simp: iter_line_def LINE_RE_search_def Let_def line_def [symmetric]
          split: if_splits)
    have "ev_method ev = r ! 20" using e by (simp add: groups_def)
    then show ?thesis
      using bt_sound [OF b] e LINE_RE_first_marker [OF b] LINE_RE_method_greedy [OF b]
      by auto
  qed
  show ?thesis using a b process_line_None unfolding line_def by blast
qed

theorem line_parser_grammar_witness:
  "iter_line ''10:00:00:000 0x1 a<b > foo()V''
     = Some \<lparr>ev_ts = ''10:00:00:000'', ev_tid = ''0x1'', ev_arrow = ''>'',
             ev_method = ''foo()V''\<rparr>
   \<and> (\<exists>r. matches LINE_RE r (rstrip_nl ''10:00:00:000 0x1 a<b > foo()V'')
          \<and> \<lparr>ev_ts = ''10:00:00:000'', ev_tid = ''0x1'', ev_arrow = ''>'',
              ev_method = ''foo()V''\<rparr> = groups r
          \<and> (\<forall>r'. matches LINE_RE r' (rstrip_nl ''10:00:00:000 0x1 a<b > foo()V'')
                \<longrightarrow> length (concat (take 18 r)) \<le> length (concat (take 18 r'))))
   \<and> iter_line ''not a trace line'' = None
   \<and> (\<nexists>r. matches LINE_RE r (rstrip_nl ''not a trace line''))
   \<and> process_line init_state ''not a trace line'' = Some init_state"
proof -
  have h1: "iter_line ''10:00:00:000 0x1 a<b > foo()V''
     = Some \<lparr>ev_ts = ''10:00:00:000'', ev_tid = ''0x1'', ev_arrow = ''>'',
             ev_method = ''foo()V''\<rparr>"
    by code_simp
  have h2: "iter_line ''not a trace line'' = None"
    by code_simp
  show ?thesis
    using h1 h2
      line_parser_grammar [of "''10:00:00:000 0x1 a<b > foo()V''"
        "\<lparr>ev_ts = ''10:00:00:000'', ev_tid = ''0x1'', ev_arrow = ''>'',
          ev_method = ''foo()V''\<rparr>" init_state]
      line_parser_grammar [of "''not a trace line''" undefined init_state]
    by blast
qed

text \<open>
  The claim as it was stated, that the direction and the method come from the first
  occurrence of a direction marker after the thread token, fails on the line
  \<open>10:00:00:000 0x1 a<b > foo()V\<close>: the thread token ends at offset 16, the first marker
  after it is \<open><\<close>, and the event that is yielded has the direction \<open>>\<close>.
\<close>

theorem first_marker_counterexample:
  "take 16 ''10:00:00:000 0x1 a<b > foo()V'' = ''10:00:00:000 0x1''
   \<and> find is_arrow (drop 16 ''10:00:00:000 0x1 a<b > foo()V'') = Some (CHR ''<'')
   \<and> iter_line ''10:00:00:000 0x1 a<b > foo()V''
       = Some \<lparr>ev_ts = ''10:00:00:000'', ev_tid = ''0x1'', ev_arrow = ''>'',
               ev_method = ''foo()V''\<rparr>
   \<and> ''>'' \<noteq> [CHR ''<'']"
  by code_simp

end
